theory Spec2Isabelle
  imports Complex_Main
begin

section \<open>Python values\<close>

text \<open>
  A Python \<open>str\<close> is a sequence of Unicode code points and \<open>len\<close> counts code points,
  so a string is a list of code points (natural numbers). \<open>py\<close> turns an ASCII literal
  into such a list. Python's unbounded non-negative integers (counters, lengths) are
  \<open>nat\<close>. Python floats (OCR confidences, polygon coordinates) are idealised as reals:
  the rounding of floating-point arithmetic is not modelled.
\<close>

type_synonym codepoint = nat
type_synonym pystr = "codepoint list"

abbreviation py :: "string \<Rightarrow> pystr" where
  "py s \<equiv> map (of_char :: char \<Rightarrow> nat) s"

text \<open>
  \<open>str.isspace\<close> for one code point: the characters CPython's
  \<open>_PyUnicode_IsWhitespace\<close> accepts. \<open>str.strip()\<close> and \<open>str.split()\<close> use the same
  test.
\<close>

definition isspace :: "codepoint \<Rightarrow> bool" where
  "isspace c \<longleftrightarrow>
     c \<in> {9, 10, 11, 12, 13, 28, 29, 30, 31, 32, 133, 160, 5760,
          8232, 8233, 8239, 8287, 12288}
     \<or> (8192 \<le> c \<and> c \<le> 8202)"

text \<open>\<open>s.strip()\<close>: leading and trailing whitespace removed.\<close>

definition strip :: "pystr \<Rightarrow> pystr" where
  "strip s = rev (dropWhile isspace (rev (dropWhile isspace s)))"

text \<open>
  \<open>s.split()\<close> with no separator: skip a run of whitespace, take the run of
  non-whitespace characters that follows as one word, repeat until the string ends.
\<close>

function split :: "pystr \<Rightarrow> pystr list" where
  "split s =
     (case dropWhile isspace s of
        [] \<Rightarrow> []
      | c # cs \<Rightarrow>
          (c # takeWhile (\<lambda>x. \<not> isspace x) cs) # split (dropWhile (\<lambda>x. \<not> isspace x) cs))"
  by pat_completeness auto
termination
proof (relation "measure length")
  show "wf (measure length)" by simp
next
  fix s :: pystr and c cs
  assume "dropWhile isspace s = c # cs"
  then have "length (c # cs) \<le> length s"
    by (metis length_dropWhile_le)
  moreover have "length (dropWhile (\<lambda>x. \<not> isspace x) cs) \<le> length cs"
    by (rule length_dropWhile_le)
  ultimately show "(dropWhile (\<lambda>x. \<not> isspace x) cs, s) \<in> measure length"
    by simp
qed

declare split.simps [simp del]

text \<open>\<open>s.replace(old, new)\<close> where \<open>old\<close> is a single character.\<close>

definition replace :: "pystr \<Rightarrow> codepoint \<Rightarrow> pystr \<Rightarrow> pystr" where
  "replace s old new = concat (map (\<lambda>c. if c = old then new else [c]) s)"

text \<open>\<open>sep.join(xs)\<close>.\<close>

fun join :: "pystr \<Rightarrow> pystr list \<Rightarrow> pystr" where
  "join sep [] = []"
| "join sep [x] = x"
| "join sep (x # y # ys) = x @ sep @ join sep (y # ys)"

text \<open>\<open>s * n\<close> for a string \<open>s\<close>.\<close>

definition str_mul :: "pystr \<Rightarrow> nat \<Rightarrow> pystr" where
  "str_mul s n = concat (replicate n s)"

text \<open>\<open>str(n)\<close> for a non-negative integer: its decimal digits.\<close>

function str_nat :: "nat \<Rightarrow> pystr" where
  "str_nat n = (if n < 10 then [48 + n] else str_nat (n div 10) @ [48 + n mod 10])"
  by pat_completeness auto
termination
  by (relation "measure id") auto

declare str_nat.simps [simp del]

text \<open>
  \<open>format(x, '.1f')\<close>: the value rounded to one decimal place, ties to the even
  neighbour (Python rounds the exact value of the float), written with a sign when
  negative, the integer digits, a point and one digit.
\<close>

definition round_half_even :: "real \<Rightarrow> int" where
  "round_half_even x =
     (let f = \<lfloor>x\<rfloor>; d = x - of_int f
      in if d < 1 / 2 then f
         else if 1 / 2 < d then f + 1
         else if even f then f else f + 1)"

definition format_1f :: "real \<Rightarrow> pystr" where
  "format_1f x =
     (let t = nat (round_half_even (\<bar>x\<bar> * 10))
      in (if x < 0 then py ''-'' else []) @ str_nat (t div 10) @ py ''.'' @ str_nat (t mod 10))"

text \<open>
  Exceptions. The source raises none itself: every exception comes from a library call
  (pdfplumber, pdf2image, EasyOCR, the temporary file) or from a division by zero.
\<close>

datatype exn = ZeroDivisionError | LibraryError string

text \<open>\<open>a / n\<close> where \<open>n\<close> is a length.\<close>

definition truediv :: "real \<Rightarrow> nat \<Rightarrow> exn + real" where
  "truediv a n = (if n = 0 then Inl ZeroDivisionError else Inr (a / real n))"

section \<open>The collaborators\<close>

text \<open>
  EasyOCR returns a list of detections \<open>(bbox, text, conf)\<close>; a bounding box is a list
  of points. An image is its pixel content, of a type \<open>'px\<close> the pipeline never looks
  into. The OCR reader \<open>reader.readtext\<close> returns the detections or raises.
\<close>

type_synonym point = "real \<times> real"
type_synonym bbox = "point list"
type_synonym detection = "bbox \<times> pystr \<times> real"
type_synonym 'px reader = "'px \<Rightarrow> exn + detection list"

text \<open>
  \<open>cv2.polylines(img, pts, isClosed, color, thickness)\<close> is OpenCV's: it is a parameter
  of the model, a function from the array's pixels to the pixels after drawing.
\<close>

type_synonym colour = "nat \<times> nat \<times> nat"
type_synonym 'px polylines = "'px \<Rightarrow> (int \<times> int) list list \<Rightarrow> bool \<Rightarrow> colour \<Rightarrow> nat \<Rightarrow> 'px"

text \<open>
  What the libraries answer for one page of the uploaded PDF:
  \<^item> \<open>extract_text\<close>: \<open>pdf_page.extract_text()\<close> raises, or returns \<open>None\<close> or a string;
  \<^item> \<open>reopen\<close>: lines 145 to 152 (\<open>pdf_file.read()\<close>, \<open>pdf_file.seek(0)\<close>, the temporary
    file, the second \<open>pdfplumber.open\<close>) raise or do nothing;
  \<^item> \<open>convert_from_bytes\<close>: the rasterizer, called for this page alone
    (\<open>first_page = last_page = page_num\<close>), raises or returns a list of images.

  \<open>pdfplumber.open(pdf_file)\<close> raises or gives the pages.
\<close>

record 'px pdf_page =
  extract_text :: "exn + pystr option"
  reopen :: "exn option"
  convert_from_bytes :: "exn + 'px list"

type_synonym 'px pdf_file = "exn + 'px pdf_page list"

text \<open>The library calls the run makes for a page, in order: the trace of a run.\<close>

datatype call = ConvertFromBytes nat | Readtext nat

section \<open>The program\<close>

text \<open>\<open>extract_text_from_page\<close> (lines 37 to 43).\<close>

definition extract_text_from_page :: "'px pdf_page \<Rightarrow> pystr" where
  "extract_text_from_page pdf_page =
     (case extract_text pdf_page of
        Inl e \<Rightarrow> []
      | Inr None \<Rightarrow> []
      | Inr (Some text) \<Rightarrow> (if text \<noteq> [] then text else []))"

text \<open>
  \<open>page_to_image\<close> (lines 45 to 48), given what \<open>convert_from_bytes\<close> answers.
\<close>

definition page_to_image :: "exn + 'px list \<Rightarrow> exn + 'px option" where
  "page_to_image converted =
     (case converted of
        Inl e \<Rightarrow> Inl e
      | Inr images \<Rightarrow> Inr (case images of [] \<Rightarrow> None | img # _ \<Rightarrow> Some img))"

text \<open>\<open>perform_ocr\<close> (lines 50 to 80).\<close>

definition perform_ocr :: "'px \<Rightarrow> 'px reader \<Rightarrow> exn + (pystr \<times> real \<times> bbox list)" where
  "perform_ocr img reader =
     (case reader img of
        Inl e \<Rightarrow> Inl e
      | Inr results \<Rightarrow>
          if results = [] then Inr ([], 0, [])
          else
            let texts = map (\<lambda>(bbox, text, conf). text) results;
                confidences = map (\<lambda>(bbox, text, conf). conf) results;
                bboxes = map (\<lambda>(bbox, text, conf). bbox) results
            in (case (if confidences \<noteq> []
                      then truediv (sum_list confidences) (length confidences)
                      else Inr 0) of
                  Inl e \<Rightarrow> Inl e
                | Inr avg_confidence \<Rightarrow>
                    Inr (join (py '' '') texts, avg_confidence, bboxes)))"

text \<open>
  \<open>np.array(bbox, dtype=np.int32)\<close>: each coordinate is truncated towards zero.
\<close>

definition trunc :: "real \<Rightarrow> int" where
  "trunc x = (if 0 \<le> x then \<lfloor>x\<rfloor> else \<lceil>x\<rceil>)"

definition int32_pts :: "bbox \<Rightarrow> (int \<times> int) list" where
  "int32_pts bbox = map (\<lambda>(x, y). (trunc x, trunc y)) bbox"

text \<open>
  \<open>draw_bboxes_on_image\<close> (lines 82 to 93) on image values: the pixels of the image it
  returns, given the pixels of its argument.
\<close>

definition draw_bboxes_on_image :: "'px polylines \<Rightarrow> 'px \<Rightarrow> bbox list \<Rightarrow> 'px" where
  "draw_bboxes_on_image polylines img bboxes =
     fold (\<lambda>bbox img_array. polylines img_array [int32_pts bbox] True (0, 255, 0) 2)
       bboxes img"

text \<open>
  The same function on a heap of image objects, as the source runs it:
  \<open>image.copy()\<close> and \<open>np.array\<close> allocate new objects, \<open>cv2.polylines\<close> overwrites the
  new array in place once per box, \<open>Image.fromarray\<close> allocates the result.
\<close>

type_synonym ref = nat

record 'px heap =
  objects :: "ref \<rightharpoonup> 'px"
  next_ref :: ref

definition alloc :: "'px heap \<Rightarrow> 'px \<Rightarrow> 'px heap \<times> ref" where
  "alloc h v = (h\<lparr>objects := (objects h)(next_ref h \<mapsto> v), next_ref := Suc (next_ref h)\<rparr>, next_ref h)"

definition polylines_inplace :: "'px polylines \<Rightarrow> ref \<Rightarrow> bbox \<Rightarrow> 'px heap \<Rightarrow> 'px heap" where
  "polylines_inplace polylines arr bbox h =
     (case objects h arr of
        None \<Rightarrow> h
      | Some px \<Rightarrow>
          h\<lparr>objects := (objects h)(arr \<mapsto> polylines px [int32_pts bbox] True (0, 255, 0) 2)\<rparr>)"

definition draw_bboxes_on_image_heap ::
  "'px polylines \<Rightarrow> 'px heap \<Rightarrow> ref \<Rightarrow> bbox list \<Rightarrow> ('px heap \<times> ref) option" where
  "draw_bboxes_on_image_heap polylines h img bboxes =
     (case objects h img of
        None \<Rightarrow> None
      | Some px \<Rightarrow>
          let (h1, copy) = alloc h px;
              (h2, img_array) = alloc h1 px;
              h3 = fold (polylines_inplace polylines img_array) bboxes h2
          in (case objects h3 img_array of
                None \<Rightarrow> None
              | Some drawn \<Rightarrow> Some (alloc h3 drawn)))"

text \<open>\<open>count_words_and_chars\<close> (lines 95 to 101).\<close>

definition count_words_and_chars :: "pystr \<Rightarrow> nat \<times> nat \<times> nat" where
  "count_words_and_chars text =
     (let words = length (split text);
          chars_with_spaces = length text;
          chars_without_spaces = length (replace (replace text 32 []) 10 [])
      in (words, chars_with_spaces, chars_without_spaces))"

text \<open>
  The dictionaries of \<open>process_pdf\<close>: \<open>page_info\<close> (lines 133 to 140) and \<open>results\<close>
  (lines 108 to 117). The key \<open>extracted_text\<close> is absent until line 220.
\<close>

record 'px page_info =
  page_num :: nat
  type :: pystr
  confidence :: pystr
  "text" :: pystr
  word_count :: nat
  preview_image :: "'px option"

record 'px results =
  pages :: "'px page_info list"
  total_words :: nat
  total_chars_with_spaces :: nat
  total_chars_without_spaces :: nat
  total_pages :: nat
  editable_pages :: nat
  scanned_pages :: nat
  hybrid_pages :: nat
  extracted_text :: "pystr option"

text \<open>
  Lines 142 to 183 of the loop body: the page is classified and its text merged. The
  result is the calls made and either the exception that left the loop or the updated
  \<open>page_info\<close> and \<open>results\<close>. The locals \<open>page_num\<close>, \<open>confidence\<close>, \<open>preview_image\<close>
  and \<open>total_pages\<close> are written \<open>pnum\<close>, \<open>conf\<close>, \<open>preview\<close> and \<open>n_pages\<close>: the keys of
  the dictionaries keep the names.
\<close>

definition classify_page ::
  "'px polylines \<Rightarrow> 'px reader \<Rightarrow> nat \<Rightarrow> 'px pdf_page \<Rightarrow> pystr \<Rightarrow> 'px page_info \<Rightarrow> 'px results
     \<Rightarrow> call list \<times> (exn + 'px page_info \<times> 'px results)" where
  "classify_page polylines reader pnum page editable_text page_info results =
     (if length (strip editable_text) < 50 then
        (case reopen page of
           Some e \<Rightarrow> ([], Inl e)
         | None \<Rightarrow>
            (case convert_from_bytes page of
               Inl e \<Rightarrow> ([ConvertFromBytes pnum], Inl e)
             | Inr images \<Rightarrow>
                (case images of
                   [] \<Rightarrow> ([ConvertFromBytes pnum], Inr (page_info, results))
                 | page_image # _ \<Rightarrow>
                    (case perform_ocr page_image reader of
                       Inl e \<Rightarrow> ([ConvertFromBytes pnum, Readtext pnum], Inl e)
                     | Inr (ocr_text, conf, bboxes) \<Rightarrow>
                        let (page_info, results) =
                              (if length (strip editable_text) > 0
                               then (page_info\<lparr>type := py ''Hybrid'',
                                       text := editable_text @ py ''\<newline>'' @ ocr_text\<rparr>,
                                     results\<lparr>hybrid_pages := hybrid_pages results + 1\<rparr>)
                               else (page_info\<lparr>type := py ''Scanned'', text := ocr_text\<rparr>,
                                     results\<lparr>scanned_pages := scanned_pages results + 1\<rparr>));
                            page_info =
                              page_info\<lparr>confidence := format_1f (conf * 100) @ py ''%''\<rparr>;
                            preview = draw_bboxes_on_image polylines page_image bboxes;
                            page_info = page_info\<lparr>preview_image := Some preview\<rparr>
                        in ([ConvertFromBytes pnum, Readtext pnum],
                            Inr (page_info, results))))))
      else ([], Inr (page_info\<lparr>type := py ''Editable'', text := editable_text\<rparr>,
                     results\<lparr>editable_pages := editable_pages results + 1\<rparr>)))"

text \<open>The text block of a page (lines 196 to 200).\<close>

definition page_block :: "nat \<Rightarrow> 'px page_info \<Rightarrow> pystr" where
  "page_block pnum page_info =
     py ''\<newline>PAGE '' @ str_nat pnum @ py '' | Type: '' @ type page_info
       @ py '' | Confidence: '' @ confidence page_info @ py ''\<newline>''
     @ str_mul (py ''-'') 60 @ py ''\<newline>''
     @ text page_info @ py ''\<newline>''"

text \<open>Lines 185 to 200 of the loop body: the counts, the totals, the page list, the block.\<close>

definition record_page ::
  "nat \<Rightarrow> 'px page_info \<Rightarrow> 'px results \<Rightarrow> pystr list \<Rightarrow> 'px results \<times> pystr list" where
  "record_page pnum page_info results all_text_content =
     (let (words, chars_with, chars_without) = count_words_and_chars (text page_info);
          page_info = page_info\<lparr>word_count := words\<rparr>;
          results = results\<lparr>total_words := total_words results + words\<rparr>;
          results = results\<lparr>total_chars_with_spaces :=
                              total_chars_with_spaces results + chars_with\<rparr>;
          results = results\<lparr>total_chars_without_spaces :=
                              total_chars_without_spaces results + chars_without\<rparr>;
          results = results\<lparr>pages := pages results @ [page_info]\<rparr>;
          all_text_content = all_text_content @ [page_block pnum page_info]
      in (results, all_text_content))"

text \<open>
  One iteration of the loop (lines 127 to 203). The calls to \<open>status_text\<close> and
  \<open>progress_bar\<close> only display and are left out.
\<close>

definition process_page ::
  "'px polylines \<Rightarrow> 'px reader \<Rightarrow> nat \<Rightarrow> 'px pdf_page \<Rightarrow> 'px results \<times> pystr list
     \<Rightarrow> call list \<times> (exn + 'px results \<times> pystr list)" where
  "process_page polylines reader pnum page st =
     (let (results, all_text_content) = st;
          editable_text = extract_text_from_page page;
          page_info = \<lparr>page_num = pnum, type = [], confidence = py ''N/A'', text = [],
                       word_count = 0, preview_image = None\<rparr>
      in case classify_page polylines reader pnum page editable_text page_info results of
           (cs, Inl e) \<Rightarrow> (cs, Inl e)
         | (cs, Inr (page_info, results)) \<Rightarrow>
             (cs, Inr (record_page pnum page_info results all_text_content)))"

text \<open>
  The loop \<open>for page_num, page in enumerate(pdf.pages, 1)\<close>, where \<open>pnum\<close> is the
  local \<open>page_num\<close>: an exception ends it.
\<close>

fun process_pages ::
  "'px polylines \<Rightarrow> 'px reader \<Rightarrow> nat \<Rightarrow> 'px pdf_page list \<Rightarrow> 'px results \<times> pystr list
     \<Rightarrow> call list \<times> (exn + 'px results \<times> pystr list)" where
  "process_pages polylines reader pnum [] st = ([], Inr st)"
| "process_pages polylines reader pnum (page # rest) st =
     (case process_page polylines reader pnum page st of
        (cs, Inl e) \<Rightarrow> (cs, Inl e)
      | (cs, Inr st') \<Rightarrow>
          (case process_pages polylines reader (Suc pnum) rest st' of
             (cs', r) \<Rightarrow> (cs @ cs', r)))"

text \<open>
  The header (lines 206 to 218). Python joins adjacent string literals before it
  applies \<open>*\<close> and \<open>+\<close>, so the expression of the source reads
  \<open>"=" * 60 + ("\nPDF TEXT EXTRACTION REPORT\n" "=") * 60 + ("\n" f"..." ... "=") * 60 + "\n"\<close>.
\<close>

definition header :: "'px results \<Rightarrow> pystr" where
  "header results =
     str_mul (py ''='') 60
     @ str_mul (py ''\<newline>'' @ py ''PDF TEXT EXTRACTION REPORT\<newline>'' @ py ''='') 60
     @ str_mul (py ''\<newline>''
          @ py ''Total Word Count: '' @ str_nat (total_words results) @ py ''\<newline>''
          @ py ''Total Character Count (with spaces): ''
              @ str_nat (total_chars_with_spaces results) @ py ''\<newline>''
          @ py ''Total Character Count (without spaces): ''
              @ str_nat (total_chars_without_spaces results) @ py ''\<newline>''
          @ py ''Total Pages Processed: '' @ str_nat (total_pages results) @ py ''\<newline>''
          @ py ''Editable Pages: '' @ str_nat (editable_pages results) @ py ''\<newline>''
          @ py ''Scanned Pages: '' @ str_nat (scanned_pages results) @ py ''\<newline>''
          @ py ''Hybrid Pages: '' @ str_nat (hybrid_pages results) @ py ''\<newline>''
          @ py ''='') 60
     @ py ''\<newline>''"

text \<open>
  \<open>process_pdf\<close> (lines 103 to 226): the calls made, and the dictionary returned or
  \<open>None\<close> when an exception was caught (line 224). \<open>st.error\<close> only displays.
\<close>

definition process_pdf ::
  "'px polylines \<Rightarrow> 'px pdf_file \<Rightarrow> 'px reader \<Rightarrow> call list \<times> 'px results option" where
  "process_pdf polylines pdf_file reader =
     (let results = \<lparr>pages = [], total_words = 0, total_chars_with_spaces = 0,
                     total_chars_without_spaces = 0, total_pages = 0, editable_pages = 0,
                     scanned_pages = 0, hybrid_pages = 0, extracted_text = None\<rparr>;
          all_text_content = []
      in case pdf_file of
           Inl e \<Rightarrow> ([], None)
         | Inr pdf_pages \<Rightarrow>
             let n_pages = length pdf_pages;
                 results = results\<lparr>total_pages := n_pages\<rparr>
             in (case process_pages polylines reader 1 pdf_pages (results, all_text_content) of
                   (cs, Inl e) \<Rightarrow> (cs, None)
                 | (cs, Inr (results, all_text_content)) \<Rightarrow>
                     (cs, Some (results\<lparr>extracted_text :=
                                  Some (header results @ concat all_text_content)\<rparr>))))"

section \<open>Notions of the specification\<close>

text \<open>
  The number of whitespace-delimited tokens of a string: the positions where a token
  starts, a character that is not whitespace and is the first of the string or follows
  a whitespace character.
\<close>

definition token_count :: "pystr \<Rightarrow> nat" where
  "token_count s =
     length (filter (\<lambda>i. \<not> isspace (s ! i) \<and> (i = 0 \<or> isspace (s ! (i - 1))))
       [0..<length s])"

text \<open>An OCR reader that answers the same detections for every image.\<close>

definition stub_reader :: "detection list \<Rightarrow> 'px reader" where
  "stub_reader detections img = Inr detections"

text \<open>
  The arithmetic mean of the confidences of a list of detections, 0 when there are none.
\<close>

definition mean_conf :: "detection list \<Rightarrow> real" where
  "mean_conf dets =
     (if dets = [] then 0 else sum_list (map (\<lambda>d. snd (snd d)) dets) / real (length dets))"

section \<open>Example inputs\<close>

text \<open>
  In the examples an image is the list of the polygons drawn on it, and the stand-in for
  \<open>cv2.polylines\<close> appends the polygons it is given.
\<close>

type_synonym canvas = "(int \<times> int) list list"

definition stub_polylines :: "canvas polylines" where
  "stub_polylines px pts is_closed col thickness = px @ pts"

text \<open>Detections: two scanned words, one word of confidence 1, one of confidence 0.\<close>

definition scan_detections :: "detection list" where
  "scan_detections =
     [([(0, 0), (40, 0), (40, 12), (0, 12)], py ''Scan'', 9 / 10),
      ([(44, 0), (70, 0), (70, 12), (44, 12)], py ''ned'', 8 / 10)]"

definition body_detections :: "detection list" where
  "body_detections = [([(0, 0), (30, 0), (30, 10), (0, 10)], py ''Body'', 1)]"


text \<open>
  Pages, each with a blank image from the rasterizer: no embedded text; 59 characters of
  embedded text; the embedded text \<open>"Header"\<close>; a single space; a single newline.
\<close>

definition scanned_page :: "canvas pdf_page" where
  "scanned_page = \<lparr>extract_text = Inr (Some []), reopen = None, convert_from_bytes = Inr [[]]\<rparr>"

definition editable_page :: "canvas pdf_page" where
  "editable_page =
     \<lparr>extract_text =
        Inr (Some (py ''The quick brown fox jumps over the lazy dog near the river.'')),
      reopen = None, convert_from_bytes = Inr [[]]\<rparr>"

definition hybrid_page :: "canvas pdf_page" where
  "hybrid_page =
     \<lparr>extract_text = Inr (Some (py ''Header'')), reopen = None, convert_from_bytes = Inr [[]]\<rparr>"

definition whitespace_page :: "canvas pdf_page" where
  "whitespace_page =
     \<lparr>extract_text = Inr (Some (py '' '')), reopen = None, convert_from_bytes = Inr [[]]\<rparr>"

definition newline_page :: "canvas pdf_page" where
  "newline_page =
     \<lparr>extract_text = Inr (Some (py ''\<newline>'')), reopen = None, convert_from_bytes = Inr [[]]\<rparr>"

section \<open>Auxiliary notions of the proofs\<close>

text \<open>
  The number of tokens that start in \<open>s\<close>, where \<open>b\<close> says whether a token may start at
  its first character: by recursion on the string, and by positions.
\<close>

fun starts :: "bool \<Rightarrow> pystr \<Rightarrow> nat" where
  "starts b [] = 0"
| "starts b (c # cs) =
     (if isspace c then starts True cs else (if b then 1 else 0) + starts False cs)"

definition starts_at :: "bool \<Rightarrow> pystr \<Rightarrow> nat" where
  "starts_at b s =
     length (filter (\<lambda>i. \<not> isspace (s ! i) \<and> (if i = 0 then b else isspace (s ! (i - 1))))
       [0..<length s])"

text \<open>
  Whether a page is sent to OCR (line 143), the \<open>page_info\<close> a page starts with (lines
  133 to 140) and the \<open>results\<close> a run starts with (lines 108 to 117 and 125).
\<close>

abbreviation needs_ocr :: "'px pdf_page \<Rightarrow> bool" where
  "needs_ocr page \<equiv> length (strip (extract_text_from_page page)) < 50"

abbreviation blank_info :: "nat \<Rightarrow> 'px page_info" where
  "blank_info n \<equiv> \<lparr>page_num = n, type = [], confidence = py ''N/A'', text = [],
                    word_count = 0, preview_image = None\<rparr>"

abbreviation empty_results :: "nat \<Rightarrow> 'px results" where
  "empty_results n \<equiv> \<lparr>pages = [], total_words = 0, total_chars_with_spaces = 0,
                     total_chars_without_spaces = 0, total_pages = n, editable_pages = 0,
                     scanned_pages = 0, hybrid_pages = 0, extracted_text = None\<rparr>"

text \<open>The totals and the counters of \<open>results\<close> agree with its list of pages.\<close>

definition totals_ok :: "'px results \<Rightarrow> bool" where
  "totals_ok res \<longleftrightarrow>
     total_words res = sum_list (map word_count (pages res))
     \<and> total_chars_with_spaces res = sum_list (map (\<lambda>p. length (text p)) (pages res))
     \<and> total_chars_without_spaces res
         = sum_list (map (\<lambda>p. length (filter (\<lambda>c. c \<noteq> 32 \<and> c \<noteq> 10) (text p))) (pages res))
     \<and> editable_pages res = length (filter (\<lambda>p. type p = py ''Editable'') (pages res))
     \<and> scanned_pages res = length (filter (\<lambda>p. type p = py ''Scanned'') (pages res))
     \<and> hybrid_pages res = length (filter (\<lambda>p. type p = py ''Hybrid'') (pages res))
     \<and> list_all (\<lambda>p. word_count p = length (split (text p))) (pages res)"

text \<open>No library call made for the page raises.\<close>

definition page_ok :: "'px reader \<Rightarrow> 'px pdf_page \<Rightarrow> bool" where
  "page_ok rd p \<longleftrightarrow>
     (if length (strip (extract_text_from_page p)) < 50
      then reopen p = None
           \<and> (case convert_from_bytes p of
                Inl e \<Rightarrow> False
              | Inr [] \<Rightarrow> True
              | Inr (img # _) \<Rightarrow> (case rd img of Inl e \<Rightarrow> False | Inr dets \<Rightarrow> True))
      else True)"

text \<open>The entry of \<open>results['pages']\<close> that a page gets when its iteration ends.\<close>

definition page_record :: "'px polylines \<Rightarrow> 'px reader \<Rightarrow> nat \<Rightarrow> 'px pdf_page \<Rightarrow> 'px page_info" where
  "page_record pl rd n p =
     (let t = extract_text_from_page p;
          info =
            (if \<not> length (strip t) < 50
             then (blank_info n)\<lparr>type := py ''Editable'', text := t\<rparr>
             else
               (case convert_from_bytes p of
                  Inl e \<Rightarrow> blank_info n
                | Inr [] \<Rightarrow> blank_info n
                | Inr (img # imgs) \<Rightarrow>
                    (case perform_ocr img rd of
                       Inl e \<Rightarrow> blank_info n
                     | Inr (ocr_text, conf, bboxes) \<Rightarrow>
                         (if 0 < length (strip t)
                          then (blank_info n)\<lparr>type := py ''Hybrid'',
                                 text := t @ py ''\<newline>'' @ ocr_text,
                                 confidence := format_1f (conf * 100) @ py ''%'',
                                 preview_image := Some (draw_bboxes_on_image pl img bboxes)\<rparr>
                          else (blank_info n)\<lparr>type := py ''Scanned'', text := ocr_text,
                                 confidence := format_1f (conf * 100) @ py ''%'',
                                 preview_image := Some (draw_bboxes_on_image pl img bboxes)\<rparr>))))
      in info\<lparr>word_count := length (split (text info))\<rparr>)"

section \<open>Strings and counts\<close>

lemma starts_dropWhile_space: "starts True (dropWhile isspace s) = starts True s"
  by (induction s) auto

lemma starts_False_dropWhile:
  "starts True (dropWhile (\<lambda>x. \<not> isspace x) s) = starts False s"
  by (induction s) auto

lemma split_Nil:
  assumes "dropWhile isspace s = []"
  shows "split s = []"
proof -
  have "split s =
     (case dropWhile isspace s of
        [] \<Rightarrow> []
      | c # cs \<Rightarrow>
          (c # takeWhile (\<lambda>x. \<not> isspace x) cs) # split (dropWhile (\<lambda>x. \<not> isspace x) cs))"
    by (rule split.simps)
  then show ?thesis unfolding assms by simp
qed

lemma split_Cons:
  assumes "dropWhile isspace s = c # cs"
  shows "split s =
    (c # takeWhile (\<lambda>x. \<not> isspace x) cs) # split (dropWhile (\<lambda>x. \<not> isspace x) cs)"
proof -
  have "split s =
     (case dropWhile isspace s of
        [] \<Rightarrow> []
      | c # cs \<Rightarrow>
          (c # takeWhile (\<lambda>x. \<not> isspace x) cs) # split (dropWhile (\<lambda>x. \<not> isspace x) cs))"
    by (rule split.simps)
  then show ?thesis unfolding assms by simp
qed

lemma length_split: "length (split s) = starts True s"
proof (induction s rule: split.induct)
  case (1 s)
  have eq: "starts True s = starts True (dropWhile isspace s)"
    by (simp only: starts_dropWhile_space)
  show ?case
  proof (cases "dropWhile isspace s")
    case Nil
    from eq have "starts True s = 0"
      by (simp only: Nil starts.simps)
    then show ?thesis by (simp only: split_Nil [OF Nil] list.size)
  next
    case (Cons c cs)
    then have nsp: "\<not> isspace c"
      by (metis hd_dropWhile list.distinct(1) list.sel(1))
    from eq have "starts True s = starts True (c # cs)"
      by (simp only: Cons)
    also have "\<dots> = 1 + starts False cs" using nsp by simp
    also have "\<dots> = 1 + length (split (dropWhile (\<lambda>x. \<not> isspace x) cs))"
      using "1.IH" [OF Cons] by (simp add: starts_False_dropWhile)
    finally show ?thesis by (simp add: split_Cons [OF Cons])
  qed
qed

lemma starts_at_Cons:
  "starts_at b (c # cs) = (if \<not> isspace c \<and> b then 1 else 0) + starts_at (isspace c) cs"
proof -
  have "[0..<Suc (length cs)] = 0 # [Suc 0..<Suc (length cs)]"
    by (rule upt_conv_Cons) simp
  then have upt: "[0..<Suc (length cs)] = 0 # map Suc [0..<length cs]"
    by (simp only: map_Suc_upt)
  have "filter (\<lambda>i. \<not> isspace ((c # cs) ! i) \<and> (if i = 0 then b else isspace ((c # cs) ! (i - 1))))
          (map Suc [0..<length cs])
        = map Suc (filter (\<lambda>i. \<not> isspace (cs ! i) \<and> (if i = 0 then isspace c else isspace (cs ! (i - 1))))
          [0..<length cs])"
    unfolding filter_map by (rule arg_cong [where f = "map Suc"], rule filter_cong) (auto simp: nth_Cons')
  then show ?thesis
    unfolding starts_at_def length_Cons upt by simp
qed

lemma starts_at_starts: "starts_at b s = starts b s"
proof (induction s arbitrary: b)
  case Nil
  show ?case by (simp add: starts_at_def)
next
  case (Cons c cs)
  show ?case by (simp add: starts_at_Cons Cons.IH)
qed

lemma token_count_starts: "token_count s = starts True s"
proof -
  have "token_count s = starts_at True s"
    unfolding token_count_def starts_at_def
    by (rule arg_cong [where f = length], rule filter_cong) auto
  then show ?thesis by (simp add: starts_at_starts)
qed

lemma replace_delete: "replace s old [] = filter (\<lambda>c. c \<noteq> old) s"
  unfolding replace_def by (induction s) auto

lemma isspace_simps [simp]:
  "isspace 32" "isspace 10" "isspace 9" "\<not> isspace 97" "\<not> isspace 98" "\<not> isspace 99"
  by (simp_all add: isspace_def)

text \<open>
  C6. For every string, \<open>count_words_and_chars\<close> returns the number of
  whitespace-delimited tokens, the length of the string, and the length of the string
  without its characters \<open>' '\<close> and \<open>'\n'\<close> (every other character, a tab too, is
  counted). The empty string has 0 words, \<open>"a  b\nc"\<close> has 3, and \<open>"a\tb c"\<close> has 4
  characters without spaces.
\<close>

theorem count_words_and_chars_counts:
  "count_words_and_chars s =
     (token_count s, length s, length (filter (\<lambda>c. c \<noteq> 32 \<and> c \<noteq> 10) s))
   \<and> fst (count_words_and_chars []) = 0
   \<and> fst (count_words_and_chars (py ''a  b\<newline>c'')) = 3
   \<and> snd (snd (count_words_and_chars [97, 9, 98, 32, 99])) = 4"
proof -
  have a: "count_words_and_chars s =
     (token_count s, length s, length (filter (\<lambda>c. c \<noteq> 32 \<and> c \<noteq> 10) s))" for s
    by (simp add: count_words_and_chars_def length_split token_count_starts replace_delete conj_commute)
  have b: "token_count [] = 0" by (simp add: token_count_starts)
  have c: "token_count (py ''a  b\<newline>c'') = 3" by (simp add: token_count_starts)
  show ?thesis unfolding a using b c by simp
qed


section \<open>The confidence of a page\<close>

lemma perform_ocr_Inl: "reader img = Inl e \<Longrightarrow> perform_ocr img reader = Inl e"
  by (simp add: perform_ocr_def)

lemma perform_ocr_Inr:
  assumes "reader img = Inr dets"
  shows "perform_ocr img reader =
           Inr (join (py '' '') (map (\<lambda>d. fst (snd d)) dets), mean_conf dets, map fst dets)"
proof (cases "dets = []")
  case True
  with assms show ?thesis by (simp add: perform_ocr_def mean_conf_def)
next
  case False
  have a: "(\<lambda>(bbox, text, conf). text) = (\<lambda>d :: detection. fst (snd d))"
    by (simp add: fun_eq_iff split: prod.splits)
  have b: "(\<lambda>(bbox, text, conf). conf) = (\<lambda>d :: detection. snd (snd d))"
    by (simp add: fun_eq_iff split: prod.splits)
  have c: "(\<lambda>(bbox, text, conf). bbox) = (fst :: detection \<Rightarrow> bbox)"
    by (simp add: fun_eq_iff split: prod.splits)
  from False assms show ?thesis
    unfolding perform_ocr_def a b c by (simp add: mean_conf_def truediv_def)
qed







section \<open>One iteration of the loop\<close>

text \<open>The outcomes of \<open>classify_page\<close>, one lemma for each path through lines 142 to 183.\<close>

lemma classify_editable:
  "\<not> length (strip t) < 50 \<Longrightarrow>
   classify_page pl rd n p t info res =
     ([], Inr (info\<lparr>type := py ''Editable'', text := t\<rparr>,
               res\<lparr>editable_pages := editable_pages res + 1\<rparr>))"
  by (simp add: classify_page_def)

lemma classify_reopen_fails:
  "length (strip t) < 50 \<Longrightarrow> reopen p = Some e \<Longrightarrow>
   classify_page pl rd n p t info res = ([], Inl e)"
  by (simp add: classify_page_def)

lemma classify_convert_fails:
  "length (strip t) < 50 \<Longrightarrow> reopen p = None \<Longrightarrow> convert_from_bytes p = Inl e \<Longrightarrow>
   classify_page pl rd n p t info res = ([ConvertFromBytes n], Inl e)"
  by (simp add: classify_page_def)

lemma classify_no_image:
  "length (strip t) < 50 \<Longrightarrow> reopen p = None \<Longrightarrow> convert_from_bytes p = Inr [] \<Longrightarrow>
   classify_page pl rd n p t info res = ([ConvertFromBytes n], Inr (info, res))"
  by (simp add: classify_page_def)

lemma classify_ocr_fails:
  "length (strip t) < 50 \<Longrightarrow> reopen p = None \<Longrightarrow> convert_from_bytes p = Inr (img # imgs) \<Longrightarrow>
   perform_ocr img rd = Inl e \<Longrightarrow>
   classify_page pl rd n p t info res = ([ConvertFromBytes n, Readtext n], Inl e)"
  by (simp add: classify_page_def)

lemma classify_hybrid:
  "length (strip t) < 50 \<Longrightarrow> reopen p = None \<Longrightarrow> convert_from_bytes p = Inr (img # imgs) \<Longrightarrow>
   perform_ocr img rd = Inr (ocr_text, conf, bboxes) \<Longrightarrow> 0 < length (strip t) \<Longrightarrow>
   classify_page pl rd n p t info res =
     ([ConvertFromBytes n, Readtext n],
      Inr (info\<lparr>type := py ''Hybrid'', text := t @ py ''\<newline>'' @ ocr_text,
              confidence := format_1f (conf * 100) @ py ''%'',
              preview_image := Some (draw_bboxes_on_image pl img bboxes)\<rparr>,
           res\<lparr>hybrid_pages := hybrid_pages res + 1\<rparr>))"
  by (simp add: classify_page_def)

lemma classify_scanned:
  "length (strip t) < 50 \<Longrightarrow> reopen p = None \<Longrightarrow> convert_from_bytes p = Inr (img # imgs) \<Longrightarrow>
   perform_ocr img rd = Inr (ocr_text, conf, bboxes) \<Longrightarrow> \<not> 0 < length (strip t) \<Longrightarrow>
   classify_page pl rd n p t info res =
     ([ConvertFromBytes n, Readtext n],
      Inr (info\<lparr>type := py ''Scanned'', text := ocr_text,
              confidence := format_1f (conf * 100) @ py ''%'',
              preview_image := Some (draw_bboxes_on_image pl img bboxes)\<rparr>,
           res\<lparr>scanned_pages := scanned_pages res + 1\<rparr>))"
  by (simp add: classify_page_def)

text \<open>The seven cases are all the cases.\<close>

lemma classify_page_cases:
  obtains
    (editable) "\<not> length (strip t) < 50"
  | (reopen_fails) e where "length (strip t) < 50" "reopen p = Some e"
  | (convert_fails) e where "length (strip t) < 50" "reopen p = None" "convert_from_bytes p = Inl e"
  | (no_image) "length (strip t) < 50" "reopen p = None" "convert_from_bytes p = Inr []"
  | (ocr_fails) img imgs e where "length (strip t) < 50" "reopen p = None"
      "convert_from_bytes p = Inr (img # imgs)" "perform_ocr img rd = Inl e"
  | (hybrid) img imgs ocr_text conf bboxes where "length (strip t) < 50" "reopen p = None"
      "convert_from_bytes p = Inr (img # imgs)" "perform_ocr img rd = Inr (ocr_text, conf, bboxes)"
      "0 < length (strip t)"
  | (scanned) img imgs ocr_text conf bboxes where "length (strip t) < 50" "reopen p = None"
      "convert_from_bytes p = Inr (img # imgs)" "perform_ocr img rd = Inr (ocr_text, conf, bboxes)"
      "\<not> 0 < length (strip t)"
proof (cases "length (strip t) < 50")
  case False
  then show ?thesis by (rule editable)
next
  case lt: True
  show ?thesis
  proof (cases "reopen p")
    case (Some e)
    with lt show ?thesis by (rule reopen_fails)
  next
    case None
    show ?thesis
    proof (cases "convert_from_bytes p")
      case (Inl e)
      with lt None show ?thesis by (rule convert_fails)
    next
      case (Inr images)
      show ?thesis
      proof (cases images)
        case Nil
        with lt None Inr show ?thesis by (intro no_image) simp_all
      next
        case (Cons img imgs)
        with Inr have c: "convert_from_bytes p = Inr (img # imgs)" by simp
        show ?thesis
        proof (cases "perform_ocr img rd")
          case (Inl e)
          with lt None c show ?thesis by (rule ocr_fails)
        next
          case (Inr r)
          then obtain ocr_text conf bboxes where
            o: "perform_ocr img rd = Inr (ocr_text, conf, bboxes)"
            by (cases r) auto
          show ?thesis
          proof (cases "0 < length (strip t)")
            case True
            with lt None c o show ?thesis by (rule hybrid)
          next
            case False
            with lt None c o show ?thesis by (rule scanned)
          qed
        qed
      qed
    qed
  qed
qed

lemma record_page_eq:
  "record_page n info res atc =
     (res\<lparr>total_words := total_words res + length (split (text info)),
          total_chars_with_spaces := total_chars_with_spaces res + length (text info),
          total_chars_without_spaces := total_chars_without_spaces res
             + length (filter (\<lambda>c. c \<noteq> 32 \<and> c \<noteq> 10) (text info)),
          pages := pages res @ [info\<lparr>word_count := length (split (text info))\<rparr>]\<rparr>,
      atc @ [page_block n (info\<lparr>word_count := length (split (text info))\<rparr>)])"
  by (simp add: record_page_def count_words_and_chars_def replace_delete conj_commute Let_def)

lemma process_page_Inr:
  assumes "process_page pl rd n p (res, atc) = (cs, Inr st')"
  obtains info resb where
    "classify_page pl rd n p (extract_text_from_page p) (blank_info n) res = (cs, Inr (info, resb))"
    "st' = record_page n info resb atc"
  using assms unfolding process_page_def
  by (auto split: prod.splits sum.splits)

lemma process_page_Inl:
  assumes "process_page pl rd n p (res, atc) = (cs, Inl e)"
  shows "\<exists>info. classify_page pl rd n p (extract_text_from_page p) info res = (cs, Inl e)"
  using assms unfolding process_page_def
  by (auto split: prod.splits sum.splits)

lemma process_page_of_classify_Inl:
  assumes "classify_page pl rd n p (extract_text_from_page p) (blank_info n) res = (cs, Inl e)"
  shows "process_page pl rd n p (res, atc) = (cs, Inl e)"
  using assms unfolding process_page_def by simp

lemma process_page_of_classify_Inr:
  assumes "classify_page pl rd n p (extract_text_from_page p) (blank_info n) res
             = (cs, Inr (info, resb))"
  shows "process_page pl rd n p (res, atc) = (cs, Inr (record_page n info resb atc))"
  using assms unfolding process_page_def by simp

text \<open>What a classification leaves alone, and that its page does not depend on the totals.\<close>

lemma classify_page_frame:
  assumes "classify_page pl rd n p t info res = (cs, Inr (info', res'))"
  shows "pages res' = pages res" "total_words res' = total_words res"
    "total_chars_with_spaces res' = total_chars_with_spaces res"
    "total_chars_without_spaces res' = total_chars_without_spaces res"
    "total_pages res' = total_pages res" "extracted_text res' = extracted_text res"
    "page_num info' = page_num info" "word_count info' = word_count info"
  using assms
  by (cases rule: classify_page_cases [where t = t and p = p and rd = rd];
      simp add: classify_editable classify_reopen_fails classify_convert_fails
        classify_no_image classify_ocr_fails classify_hybrid classify_scanned; fastforce)+

section \<open>The totals of a run\<close>

lemma process_page_totals:
  assumes run: "process_page pl rd n p (res, atc) = (cs, Inr (res', atc'))"
    and ok: "totals_ok res"
  shows "totals_ok res'"
    and "map page_num (pages res') = map page_num (pages res) @ [n]"
    and "total_pages res' = total_pages res"
proof -
  from run obtain info resb where
    c: "classify_page pl rd n p (extract_text_from_page p) (blank_info n) res
          = (cs, Inr (info, resb))"
    and r: "(res', atc') = record_page n info resb atc"
    by (rule process_page_Inr)
  let ?t = "extract_text_from_page p"
  from r have res': "res' = fst (record_page n info resb atc)"
    by (metis fst_conv)
  have "totals_ok res' \<and> map page_num (pages res') = map page_num (pages res) @ [n]
        \<and> total_pages res' = total_pages res"
  proof (cases rule: classify_page_cases [where t = ?t and p = p and rd = rd])
    case editable
    from c have "info = (blank_info n)\<lparr>type := py ''Editable'', text := ?t\<rparr>"
      "resb = res\<lparr>editable_pages := editable_pages res + 1\<rparr>"
      by (simp_all add: classify_editable [OF editable])
    with ok show ?thesis
      unfolding res' by (simp add: record_page_eq totals_ok_def)
  next
    case (reopen_fails e)
    with c show ?thesis by (simp add: classify_reopen_fails)
  next
    case (convert_fails e)
    with c show ?thesis by (simp add: classify_convert_fails)
  next
    case no_image
    from c have "info = blank_info n" "resb = res"
      by (simp_all add: classify_no_image [OF no_image])
    with ok show ?thesis
      unfolding res' by (simp add: record_page_eq totals_ok_def split.simps [of "[]"])
  next
    case (ocr_fails img imgs e)
    with c show ?thesis by (simp add: classify_ocr_fails)
  next
    case (hybrid img imgs ocr_text conf bboxes)
    from c have "info = (blank_info n)\<lparr>type := py ''Hybrid'',
          text := ?t @ py ''\<newline>'' @ ocr_text,
          confidence := format_1f (conf * 100) @ py ''%'',
          preview_image := Some (draw_bboxes_on_image pl img bboxes)\<rparr>"
      "resb = res\<lparr>hybrid_pages := hybrid_pages res + 1\<rparr>"
      by (simp_all add: classify_hybrid [OF hybrid])
    with ok show ?thesis
      unfolding res' by (simp add: record_page_eq totals_ok_def)
  next
    case (scanned img imgs ocr_text conf bboxes)
    from c have "info = (blank_info n)\<lparr>type := py ''Scanned'', text := ocr_text,
          confidence := format_1f (conf * 100) @ py ''%'',
          preview_image := Some (draw_bboxes_on_image pl img bboxes)\<rparr>"
      "resb = res\<lparr>scanned_pages := scanned_pages res + 1\<rparr>"
      by (simp_all add: classify_scanned [OF scanned])
    with ok show ?thesis
      unfolding res' by (simp add: record_page_eq totals_ok_def)
  qed
  then show "totals_ok res'"
    and "map page_num (pages res') = map page_num (pages res) @ [n]"
    and "total_pages res' = total_pages res"
    by simp_all
qed

lemma process_pages_totals:
  assumes "process_pages pl rd n ps (res, atc) = (cs, Inr (res', atc'))"
    and "totals_ok res"
  shows "totals_ok res' \<and> map page_num (pages res') = map page_num (pages res) @ [n..<n + length ps]
         \<and> total_pages res' = total_pages res"
  using assms
proof (induction ps arbitrary: n res atc cs)
  case Nil
  then show ?case by simp
next
  case (Cons p ps)
  from Cons.prems(1) obtain cs1 res1 atc1 cs2 where
    step: "process_page pl rd n p (res, atc) = (cs1, Inr (res1, atc1))"
    and rest: "process_pages pl rd (Suc n) ps (res1, atc1) = (cs2, Inr (res', atc'))"
    by (auto split: prod.splits sum.splits)
  note s = process_page_totals [OF step Cons.prems(2)]
  have "n < n + Suc (length ps)" by simp
  then have "[n..<n + Suc (length ps)] = n # [Suc n..<n + Suc (length ps)]"
    by (rule upt_conv_Cons)
  then have u: "[n..<n + length (p # ps)] = n # [Suc n..<Suc n + length ps]"
    by (simp del: upt_Suc)
  from Cons.IH [OF rest s(1)] s(2,3) show ?case
    unfolding u by simp
qed

lemma process_pdf_Some:
  "process_pdf pl pdf rd = (cs, Some r) \<longleftrightarrow>
     (\<exists>ps res atc. pdf = Inr ps
        \<and> process_pages pl rd 1 ps (empty_results (length ps), []) = (cs, Inr (res, atc))
        \<and> r = res\<lparr>extracted_text := Some (header res @ concat atc)\<rparr>)"
  unfolding process_pdf_def
  by (auto simp: Let_def split: sum.splits prod.splits)

lemma process_pdf_None:
  "process_pdf pl pdf rd = (cs, None) \<longleftrightarrow>
     (cs = [] \<and> (\<exists>e. pdf = Inl e))
     \<or> (\<exists>ps e. pdf = Inr ps
        \<and> process_pages pl rd 1 ps (empty_results (length ps), []) = (cs, Inl e))"
  unfolding process_pdf_def
  by (auto simp: Let_def split: sum.splits prod.splits)

lemma totals_ok_empty: "totals_ok (empty_results n)"
  by (simp add: totals_ok_def)

section \<open>The pages and the calls of a run\<close>

lemma process_page_pages:
  assumes "process_page pl rd n p (res, atc) = (cs, Inr (res', atc'))"
  obtains info resa where
    "classify_page pl rd n p (extract_text_from_page p) (blank_info n) res
       = (cs, Inr (info, resa))"
    "pages res' = pages res @ [info\<lparr>word_count := length (split (text info))\<rparr>]"
    "atc' = atc @ [page_block n (info\<lparr>word_count := length (split (text info))\<rparr>)]"
proof -
  from assms obtain info resa where
    c: "classify_page pl rd n p (extract_text_from_page p) (blank_info n) res
          = (cs, Inr (info, resa))"
    and r: "(res', atc') = record_page n info resa atc"
    by (rule process_page_Inr)
  from r classify_page_frame(1) [OF c]
  have "pages res' = pages res @ [info\<lparr>word_count := length (split (text info))\<rparr>]"
    "atc' = atc @ [page_block n (info\<lparr>word_count := length (split (text info))\<rparr>)]"
    by (simp_all add: record_page_eq)
  with c show thesis by (rule that)
qed

lemma process_pages_length:
  assumes "process_pages pl rd n ps (res, atc) = (cs, Inr (res', atc'))"
  shows "\<exists>new. pages res' = pages res @ new \<and> length new = length ps"
  using assms
proof (induction ps arbitrary: n res atc cs)
  case Nil
  then show ?case by simp
next
  case (Cons p ps)
  from Cons.prems obtain cs1 res1 atc1 cs2 where
    step: "process_page pl rd n p (res, atc) = (cs1, Inr (res1, atc1))"
    and rest: "process_pages pl rd (Suc n) ps (res1, atc1) = (cs2, Inr (res', atc'))"
    by (auto split: prod.splits sum.splits)
  from step obtain x where x: "pages res1 = pages res @ [x]"
    by (rule process_page_pages)
  from Cons.IH [OF rest] obtain new where "pages res' = pages res1 @ new" "length new = length ps"
    by blast
  with x have "pages res' = pages res @ (x # new)" "length (x # new) = length (p # ps)"
    by simp_all
  then show ?case by blast
qed

lemma process_pages_nth:
  assumes "process_pages pl rd n ps (res, atc) = (cs, Inr (res', atc'))"
    and "i < length ps"
  shows "\<exists>csi info resa resb.
           classify_page pl rd (n + i) (ps ! i) (extract_text_from_page (ps ! i))
               (blank_info (n + i)) resa = (csi, Inr (info, resb))
           \<and> pages res' ! (length (pages res) + i)
               = info\<lparr>word_count := length (split (text info))\<rparr>"
  using assms
proof (induction ps arbitrary: n res atc cs i)
  case Nil
  then show ?case by simp
next
  case (Cons p ps)
  from Cons.prems(1) obtain cs1 res1 atc1 cs2 where
    step: "process_page pl rd n p (res, atc) = (cs1, Inr (res1, atc1))"
    and rest: "process_pages pl rd (Suc n) ps (res1, atc1) = (cs2, Inr (res', atc'))"
    by (auto split: prod.splits sum.splits)
  from step obtain info resa where
    c: "classify_page pl rd n p (extract_text_from_page p) (blank_info n) res
          = (cs1, Inr (info, resa))"
    and x: "pages res1 = pages res @ [info\<lparr>word_count := length (split (text info))\<rparr>]"
    by (rule process_page_pages)
  from process_pages_length [OF rest] obtain new where
    new: "pages res' = pages res1 @ new"
    by blast
  show ?case
  proof (cases i)
    case 0
    from new x have "pages res' ! (length (pages res) + 0)
        = info\<lparr>word_count := length (split (text info))\<rparr>"
      by (simp add: nth_append)
    with c 0 show ?thesis by fastforce
  next
    case (Suc j)
    with Cons.prems(2) have j: "j < length ps" by simp
    from Cons.IH [OF rest j] x Suc show ?thesis by simp
  qed
qed

text \<open>The calls of a run are made for pages that need OCR.\<close>

lemma classify_page_calls:
  assumes "classify_page pl rd n p t info res = (cs, r)" and "c \<in> set cs"
  shows "length (strip t) < 50 \<and> (c = ConvertFromBytes n \<or> c = Readtext n)"
  using assms
  by (cases rule: classify_page_cases [where t = t and p = p and rd = rd])
     (auto simp: classify_editable classify_reopen_fails classify_convert_fails
        classify_no_image classify_ocr_fails classify_hybrid classify_scanned)

lemma process_page_calls:
  assumes "process_page pl rd n p st = (cs, r)" and "c \<in> set cs"
  shows "needs_ocr p \<and> (c = ConvertFromBytes n \<or> c = Readtext n)"
proof -
  obtain res atc where st: "st = (res, atc)" by (cases st)
  from assms(1) obtain r' where
    "classify_page pl rd n p (extract_text_from_page p) (blank_info n) res = (cs, r')"
    unfolding st process_page_def by (auto split: prod.splits sum.splits)
  from classify_page_calls [OF this assms(2)] show ?thesis .
qed

lemma process_pages_calls:
  assumes "process_pages pl rd n ps st = (cs, r)" and "c \<in> set cs"
  shows "\<exists>i<length ps. needs_ocr (ps ! i) \<and> (c = ConvertFromBytes (n + i) \<or> c = Readtext (n + i))"
  using assms
proof (induction ps arbitrary: n st cs r)
  case Nil
  then show ?case by simp
next
  case (Cons p ps)
  obtain cs1 r1 where step: "process_page pl rd n p st = (cs1, r1)"
    by (cases "process_page pl rd n p st")
  show ?case
  proof (cases "c \<in> set cs1")
    case True
    from process_page_calls [OF step True] show ?thesis by auto
  next
    case False
    with Cons.prems step obtain st1 cs2 where
      "r1 = Inr st1" and rest: "process_pages pl rd (Suc n) ps st1 = (cs2, r)"
      and "c \<in> set cs2"
      by (auto split: prod.splits sum.splits)
    from Cons.IH [OF rest \<open>c \<in> set cs2\<close>] obtain i where
      "i < length ps" "needs_ocr (ps ! i)"
      "c = ConvertFromBytes (Suc n + i) \<or> c = Readtext (Suc n + i)"
      by blast
    then have "Suc i < length (p # ps) \<and> needs_ocr ((p # ps) ! Suc i)
       \<and> (c = ConvertFromBytes (n + Suc i) \<or> c = Readtext (n + Suc i))"
      by simp
    then show ?thesis by blast
  qed
qed

lemma perform_ocr_Inl_iff: "(\<exists>e. perform_ocr img rd = Inl e) \<longleftrightarrow> (\<exists>e. rd img = Inl e)"
proof (cases "rd img")
  case (Inl e)
  then show ?thesis by (simp add: perform_ocr_Inl)
next
  case (Inr dets)
  from perform_ocr_Inr [of rd img dets, OF this] Inr show ?thesis by simp
qed

lemma classify_page_ok:
  "(\<exists>cs e. classify_page pl rd n p (extract_text_from_page p) info res = (cs, Inl e))
     \<longleftrightarrow> \<not> page_ok rd p"
proof (cases rule: classify_page_cases
    [where t = "extract_text_from_page p" and p = p and rd = rd])
  case editable
  then show ?thesis by (simp add: classify_editable page_ok_def)
next
  case (reopen_fails e)
  then show ?thesis by (simp add: classify_reopen_fails page_ok_def)
next
  case (convert_fails e)
  then show ?thesis by (simp add: classify_convert_fails page_ok_def)
next
  case no_image
  then show ?thesis by (simp add: classify_no_image page_ok_def)
next
  case (ocr_fails img imgs e)
  moreover from ocr_fails(4) perform_ocr_Inl_iff [of img rd] obtain e' where "rd img = Inl e'"
    by blast
  ultimately show ?thesis by (simp add: classify_ocr_fails page_ok_def)
next
  case (hybrid img imgs ocr_text conf bboxes)
  moreover from hybrid(4) perform_ocr_Inl_iff [of img rd] obtain dets where "rd img = Inr dets"
    by (cases "rd img") auto
  ultimately show ?thesis by (simp add: classify_hybrid page_ok_def)
next
  case (scanned img imgs ocr_text conf bboxes)
  moreover from scanned(4) perform_ocr_Inl_iff [of img rd] obtain dets where "rd img = Inr dets"
    by (cases "rd img") auto
  ultimately show ?thesis by (simp add: classify_scanned page_ok_def)
qed

lemma process_page_fails_iff:
  "(\<exists>cs e. process_page pl rd n p st = (cs, Inl e)) \<longleftrightarrow> \<not> page_ok rd p"
proof -
  obtain res atc where st: "st = (res, atc)" by (cases st)
  have "(\<exists>cs e. process_page pl rd n p (res, atc) = (cs, Inl e))
      \<longleftrightarrow> (\<exists>cs e. classify_page pl rd n p (extract_text_from_page p) (blank_info n) res
                     = (cs, Inl e))"
    unfolding process_page_def by (auto split: prod.splits sum.splits)
  then show ?thesis unfolding st by (simp only: classify_page_ok)
qed

lemma process_pages_fails_iff:
  "(\<exists>cs e. process_pages pl rd n ps st = (cs, Inl e)) \<longleftrightarrow> \<not> list_all (page_ok rd) ps"
proof (induction ps arbitrary: n st)
  case Nil
  show ?case by simp
next
  case (Cons p ps)
  obtain cs1 r1 where step: "process_page pl rd n p st = (cs1, r1)"
    by (cases "process_page pl rd n p st")
  show ?case
  proof (cases r1)
    case (Inl e)
    with step process_page_fails_iff [of pl rd n p st] have "\<not> page_ok rd p" by blast
    with step Inl show ?thesis by simp
  next
    case (Inr st1)
    with step process_page_fails_iff [of pl rd n p st] have ok: "page_ok rd p" by auto
    obtain cs2 r2 where rest: "process_pages pl rd (Suc n) ps st1 = (cs2, r2)"
      by (cases "process_pages pl rd (Suc n) ps st1")
    from Cons.IH [of "Suc n" st1] rest
    have "(\<exists>e. r2 = Inl e) \<longleftrightarrow> \<not> list_all (page_ok rd) ps" by simp
    with step Inr rest ok show ?thesis by simp
  qed
qed

lemma process_pdf_fails_iff:
  "snd (process_pdf pl (Inr ps) rd) = None \<longleftrightarrow> \<not> list_all (page_ok rd) ps"
proof -
  obtain cs r where run: "process_pages pl rd 1 ps (empty_results (length ps), []) = (cs, r)"
    by (cases "process_pages pl rd 1 ps (empty_results (length ps), [])")
  have "snd (process_pdf pl (Inr ps) rd) = None \<longleftrightarrow> (\<exists>e. r = Inl e)"
    using run unfolding process_pdf_def by (auto simp: Let_def split: sum.splits prod.splits)
  also have "\<dots> \<longleftrightarrow> \<not> list_all (page_ok rd) ps"
    using process_pages_fails_iff [of pl rd 1 ps "(empty_results (length ps), [])"] run by simp
  finally show ?thesis .
qed

lemma process_pdf_open_fails: "process_pdf pl (Inl e) rd = ([], None)"
  by (simp add: process_pdf_def)

lemma classify_page_record:
  assumes "classify_page pl rd n p (extract_text_from_page p) (blank_info n) res
             = (cs, Inr (info, res'))"
  shows "info\<lparr>word_count := length (split (text info))\<rparr> = page_record pl rd n p"
  using assms
  by (cases rule: classify_page_cases
        [where t = "extract_text_from_page p" and p = p and rd = rd])
     (auto simp: classify_editable classify_reopen_fails classify_convert_fails
        classify_no_image classify_ocr_fails classify_hybrid classify_scanned
        page_record_def)

lemma process_pages_record:
  assumes "process_pages pl rd n ps (res, atc) = (cs, Inr (res', atc'))"
    and "i < length ps"
  shows "pages res' ! (length (pages res) + i) = page_record pl rd (n + i) (ps ! i)"
proof -
  from process_pages_nth [OF assms] obtain csi info resa resb where
    "classify_page pl rd (n + i) (ps ! i) (extract_text_from_page (ps ! i))
               (blank_info (n + i)) resa = (csi, Inr (info, resb))"
    "pages res' ! (length (pages res) + i) = info\<lparr>word_count := length (split (text info))\<rparr>"
    by blast
  then show ?thesis by (simp add: classify_page_record)
qed

lemma process_pdf_record:
  assumes "process_pdf pl (Inr ps) rd = (cs, Some r)" and "i < length ps"
  shows "pages r ! i = page_record pl rd (Suc i) (ps ! i)"
    and "length (pages r) = length ps"
    and "list_all (page_ok rd) ps"
proof -
  from assms(1) obtain res atc where
    run: "process_pages pl rd 1 ps (empty_results (length ps), []) = (cs, Inr (res, atc))"
    and r: "r = res\<lparr>extracted_text := Some (header res @ concat atc)\<rparr>"
    unfolding process_pdf_Some by blast
  from process_pages_record [OF run assms(2)] show "pages r ! i = page_record pl rd (Suc i) (ps ! i)"
    unfolding r by simp
  from process_pages_length [OF run] show "length (pages r) = length ps"
    unfolding r by auto
  from assms(1) have "snd (process_pdf pl (Inr ps) rd) \<noteq> None" by simp
  then show "list_all (page_ok rd) ps"
    by (simp add: process_pdf_fails_iff)
qed

lemma page_ok_nth: "list_all (page_ok rd) ps \<Longrightarrow> i < length ps \<Longrightarrow> page_ok rd (ps ! i)"
  by (simp add: list_all_length)

lemma run_ok:
  assumes "list_all (page_ok rd) ps"
  shows "\<exists>cs r. process_pdf pl (Inr ps) rd = (cs, Some r)"
proof -
  from assms have "snd (process_pdf pl (Inr ps) rd) \<noteq> None"
    by (simp add: process_pdf_fails_iff)
  then show ?thesis by (cases "process_pdf pl (Inr ps) rd") auto
qed

section \<open>The examples\<close>

lemma example_pages:
  "extract_text_from_page hybrid_page = py ''Header''"
  "reopen hybrid_page = None" "convert_from_bytes hybrid_page = Inr [[]]"
  "extract_text_from_page whitespace_page = py '' ''"
  "reopen whitespace_page = None" "convert_from_bytes whitespace_page = Inr [[]]"
  "extract_text_from_page newline_page = py ''\<newline>''"
  "reopen newline_page = None" "convert_from_bytes newline_page = Inr [[]]"
  by (simp_all add: extract_text_from_page_def hybrid_page_def whitespace_page_def
      newline_page_def)

lemma strip_examples:
  "strip (py ''Header'') = py ''Header''" "strip (py '' '') = []" "strip (py ''\<newline>'') = []"
  "strip [] = []"
  by (simp_all add: strip_def isspace_def)

lemma example_pages2:
  "extract_text_from_page editable_page
     = py ''The quick brown fox jumps over the lazy dog near the river.''"
  "reopen editable_page = None" "convert_from_bytes editable_page = Inr [[]]"
  "extract_text_from_page scanned_page = []"
  "reopen scanned_page = None" "convert_from_bytes scanned_page = Inr [[]]"
  by (simp_all add: extract_text_from_page_def editable_page_def scanned_page_def)

section \<open>Classification\<close>

text \<open>
  C1, as amended. In a run that returns a report, a page whose stripped embedded text has
  at least one and fewer than 50 characters, for which the rasterizer returned an image
  and the reader returned detections for it, is classified Hybrid, and its merged text
  is the embedded text (not stripped), a newline, and the detected texts joined by single
  spaces in the order the reader returned them.
\<close>

theorem hybrid_page_text:
  assumes "process_pdf pl (Inr ps) rd = (cs, Some r)" and "i < length ps"
    and "0 < length (strip (extract_text_from_page (ps ! i)))"
    and "length (strip (extract_text_from_page (ps ! i))) < 50"
    and "convert_from_bytes (ps ! i) = Inr (img # imgs)" and "rd img = Inr dets"
  shows "type (pages r ! i) = py ''Hybrid''
     \<and> text (pages r ! i)
         = extract_text_from_page (ps ! i) @ py ''\<newline>''
             @ join (py '' '') (map (\<lambda>d. fst (snd d)) dets)"
proof -
  have "pages r ! i = page_record pl rd (Suc i) (ps ! i)"
    by (rule process_pdf_record(1) [OF assms(1,2)])
  moreover have "perform_ocr img rd =
      Inr (join (py '' '') (map (\<lambda>d. fst (snd d)) dets), mean_conf dets, map fst dets)"
    by (rule perform_ocr_Inr [of rd img dets, OF assms(6)])
  ultimately show ?thesis
    using assms(3,4,5) by (simp add: page_record_def Let_def)
qed

text \<open>
  The page with the embedded text \<open>"Header"\<close> and the detection \<open>"Body"\<close> is Hybrid with
  the text \<open>"Header\nBody"\<close>.
\<close>

theorem hybrid_page_text_witness:
  "\<exists>cs r. process_pdf stub_polylines (Inr [hybrid_page]) (stub_reader body_detections)
             = (cs, Some r)
     \<and> type (pages r ! 0) = py ''Hybrid'' \<and> text (pages r ! 0) = py ''Header\<newline>Body''"
proof -
  have "list_all (page_ok (stub_reader body_detections)) [hybrid_page]"
    by (simp add: page_ok_def example_pages strip_def isspace_def stub_reader_def)
  from run_ok [OF this] obtain cs r where
    run: "process_pdf stub_polylines (Inr [hybrid_page]) (stub_reader body_detections)
            = (cs, Some r)"
    by blast
  have "type (pages r ! 0) = py ''Hybrid''
     \<and> text (pages r ! 0)
         = extract_text_from_page ([hybrid_page] ! 0) @ py ''\<newline>''
             @ join (py '' '') (map (\<lambda>d. fst (snd d)) body_detections)"
    by (rule hybrid_page_text [OF run, where img = "[]" and imgs = "[]"])
       (simp_all add: example_pages strip_def isspace_def stub_reader_def)
  then have "type (pages r ! 0) = py ''Hybrid'' \<and> text (pages r ! 0) = py ''Header\<newline>Body''"
    by (simp add: example_pages body_detections_def)
  with run show ?thesis by blast
qed

text \<open>
  C1 as stated fails: the embedded text \<open>" "\<close> is not empty and its stripped length 0
  is below 50, the rasterizer and the reader answer, and the page is classified Scanned
  with the OCR text alone. Line 163 tests the stripped text.
\<close>

theorem whitespace_page_is_scanned:
  "snd (process_pdf stub_polylines (Inr [whitespace_page]) (stub_reader body_detections)) \<noteq> None
   \<and> extract_text_from_page whitespace_page = py '' ''
   \<and> length (strip (extract_text_from_page whitespace_page)) < 50
   \<and> convert_from_bytes whitespace_page = Inr [[]]
   \<and> stub_reader body_detections ([] :: canvas) = Inr body_detections
   \<and> type (pages (the (snd (process_pdf stub_polylines (Inr [whitespace_page])
              (stub_reader body_detections)))) ! 0) = py ''Scanned''
   \<and> text (pages (the (snd (process_pdf stub_polylines (Inr [whitespace_page])
              (stub_reader body_detections)))) ! 0) = py ''Body''"
proof -
  have "list_all (page_ok (stub_reader body_detections)) [whitespace_page]"
    by (simp add: page_ok_def example_pages strip_def isspace_def stub_reader_def)
  from run_ok [OF this] obtain cs r where
    run: "process_pdf stub_polylines (Inr [whitespace_page]) (stub_reader body_detections)
            = (cs, Some r)"
    by blast
  have "pages r ! 0 = page_record stub_polylines (stub_reader body_detections) (Suc 0)
      ([whitespace_page] ! 0)"
    by (rule process_pdf_record(1) [OF run]) simp
  moreover have "perform_ocr ([] :: canvas) (stub_reader body_detections) =
      Inr (join (py '' '') (map (\<lambda>d. fst (snd d)) body_detections), mean_conf body_detections,
           map fst body_detections)"
    by (rule perform_ocr_Inr) (simp add: stub_reader_def)
  ultimately have "type (pages r ! 0) = py ''Scanned''
      \<and> text (pages r ! 0) = join (py '' '') (map (\<lambda>d. fst (snd d)) body_detections)"
    by (simp add: page_record_def Let_def example_pages strip_def isspace_def)
  then have "type (pages r ! 0) = py ''Scanned'' \<and> text (pages r ! 0) = py ''Body''"
    by (simp add: body_detections_def)
  with run show ?thesis
    by (simp add: example_pages strip_def isspace_def stub_reader_def)
qed

text \<open>The text \<open>'N/A'\<close> is not the rendering of any confidence: those end with \<open>'%'\<close>.\<close>

lemma format_1f_not_na: "py ''N/A'' \<noteq> format_1f x @ py ''%''"
proof
  assume "py ''N/A'' = format_1f x @ py ''%''"
  then have "last (py ''N/A'') = last (format_1f x @ py ''%'')" by simp
  then show False by simp
qed

text \<open>
  C2. For a page whose stripped embedded text has 50 or more characters, no run calls
  the rasterizer or the OCR reader for it, and in a run that returns a report the page is
  classified Editable, its merged text is the embedded text as extracted, it has no
  preview image, and its confidence is \<open>'N/A'\<close>, which differs from the rendering of
  every number, 0.0 included.
\<close>

theorem editable_page_no_ocr:
  assumes "process_pdf pl (Inr ps) rd = (cs, ro)" and "i < length ps"
    and "50 \<le> length (strip (extract_text_from_page (ps ! i)))"
  shows "Readtext (Suc i) \<notin> set cs \<and> ConvertFromBytes (Suc i) \<notin> set cs
     \<and> (\<forall>r. ro = Some r \<longrightarrow>
           type (pages r ! i) = py ''Editable''
           \<and> text (pages r ! i) = extract_text_from_page (ps ! i)
           \<and> confidence (pages r ! i) = py ''N/A''
           \<and> preview_image (pages r ! i) = None)
     \<and> (\<forall>x. py ''N/A'' \<noteq> format_1f x @ py ''%'')"
proof -
  obtain r0 where
    run: "process_pages pl rd 1 ps (empty_results (length ps), []) = (cs, r0)"
    using assms(1) unfolding process_pdf_def
    by (auto simp: Let_def split: sum.splits prod.splits)
  have no: "c \<notin> set cs" if "c = Readtext (Suc i) \<or> c = ConvertFromBytes (Suc i)" for c
  proof
    assume "c \<in> set cs"
    from process_pages_calls [OF run this] obtain j where
      j: "j < length ps" "needs_ocr (ps ! j)"
      "c = ConvertFromBytes (1 + j) \<or> c = Readtext (1 + j)"
      by blast
    with that have "j = i" by auto
    with j(2) assms(3) show False by simp
  qed
  have "type (pages r ! i) = py ''Editable''
           \<and> text (pages r ! i) = extract_text_from_page (ps ! i)
           \<and> confidence (pages r ! i) = py ''N/A''
           \<and> preview_image (pages r ! i) = None" if "ro = Some r" for r
  proof -
    from assms(1) that have "process_pdf pl (Inr ps) rd = (cs, Some r)" by simp
    from process_pdf_record(1) [OF this assms(2)] assms(3) show ?thesis
      by (simp add: page_record_def Let_def)
  qed
  with no format_1f_not_na show ?thesis by blast
qed

text \<open>
  The second page of a two-page document has 59 characters: the calls of the run are
  for page 1 only.
\<close>

theorem editable_page_no_ocr_witness:
  "\<exists>cs r. process_pdf stub_polylines (Inr [scanned_page, editable_page])
             (stub_reader scan_detections) = (cs, Some r)
     \<and> Readtext 2 \<notin> set cs \<and> ConvertFromBytes 2 \<notin> set cs
     \<and> type (pages r ! 1) = py ''Editable''
     \<and> text (pages r ! 1) = py ''The quick brown fox jumps over the lazy dog near the river.''
     \<and> confidence (pages r ! 1) = py ''N/A''"
proof -
  have "list_all (page_ok (stub_reader scan_detections)) [scanned_page, editable_page]"
    by (simp add: page_ok_def example_pages2 strip_def isspace_def stub_reader_def)
  from run_ok [OF this] obtain cs r where
    run: "process_pdf stub_polylines (Inr [scanned_page, editable_page])
            (stub_reader scan_detections) = (cs, Some r)"
    by blast
  have "50 \<le> length (strip (extract_text_from_page ([scanned_page, editable_page] ! 1)))"
    by (simp add: example_pages2 strip_def isspace_def)
  from editable_page_no_ocr [OF run _ this] run show ?thesis
    by (simp add: example_pages2 numeral_2_eq_2)
qed

section \<open>The report\<close>

lemma process_pdf_totals:
  assumes "process_pdf pl pdf rd = (cs, Some r)"
  shows "totals_ok r" and "map page_num (pages r) = [1..<Suc (total_pages r)]"
    and "pdf = Inr (projr pdf)" and "total_pages r = length (projr pdf)"
    and "length (pages r) = total_pages r"
proof -
  from assms obtain ps res atc where
    pdf: "pdf = Inr ps"
    and run: "process_pages pl rd 1 ps (empty_results (length ps), []) = (cs, Inr (res, atc))"
    and r: "r = res\<lparr>extracted_text := Some (header res @ concat atc)\<rparr>"
    unfolding process_pdf_Some by blast
  from process_pages_totals [OF run totals_ok_empty]
  have t: "totals_ok res" "map page_num (pages res) = [1..<1 + length ps]"
    "total_pages res = length ps"
    by simp_all
  from t(1) show "totals_ok r" unfolding r by (simp add: totals_ok_def)
  from t(2,3) show "map page_num (pages r) = [1..<Suc (total_pages r)]" unfolding r by simp
  from pdf show "pdf = Inr (projr pdf)" by simp
  from t(3) pdf show "total_pages r = length (projr pdf)" unfolding r by simp
  from process_pages_length [OF run] t(3) show "length (pages r) = total_pages r"
    unfolding r by auto
qed

lemma process_pdf_pages:
  assumes "process_pdf pl (Inr ps) rd = (cs, Some r)"
  shows "pages r = map (\<lambda>i. page_record pl rd (Suc i) (ps ! i)) [0..<length ps]"
proof (rule nth_equalityI)
  show "length (pages r) = length (map (\<lambda>i. page_record pl rd (Suc i) (ps ! i)) [0..<length ps])"
    using process_pdf_totals(4,5) [OF assms] by simp
next
  fix i
  assume "i < length (pages r)"
  then have i: "i < length ps" using process_pdf_totals(4,5) [OF assms] by simp
  from process_pdf_record(1) [OF assms i] i
  show "pages r ! i = map (\<lambda>i. page_record pl rd (Suc i) (ps ! i)) [0..<length ps] ! i"
    by simp
qed

text \<open>The OCR results of the examples, and the page number of a page's entry.\<close>

lemma perform_ocr_scan:
  "perform_ocr ([] :: canvas) (stub_reader scan_detections)
     = Inr (py ''Scan ned'', 17 / 20, map fst scan_detections)"
proof -
  have "stub_reader scan_detections ([] :: canvas) = Inr scan_detections"
    by (simp add: stub_reader_def)
  from perform_ocr_Inr [of "stub_reader scan_detections" "[]", OF this] show ?thesis
    by (simp add: mean_conf_def scan_detections_def)
qed

lemma perform_ocr_body:
  "perform_ocr ([] :: canvas) (stub_reader body_detections)
     = Inr (py ''Body'', 1, map fst body_detections)"
proof -
  have "stub_reader body_detections ([] :: canvas) = Inr body_detections"
    by (simp add: stub_reader_def)
  from perform_ocr_Inr [of "stub_reader body_detections" "[]", OF this] show ?thesis
    by (simp add: mean_conf_def body_detections_def)
qed

lemma page_num_page_record: "page_num (page_record pl rd n p) = n"
  by (simp add: page_record_def Let_def split: sum.splits list.splits prod.splits)

text \<open>
  C5. In the report of a run, the total of words is the sum of the pages' word counts
  (each the number of words of the page's merged text), the total of characters with
  spaces is the sum of the lengths of the merged texts, the total without spaces is the
  sum of their lengths without \<open>' '\<close> and \<open>'\n'\<close>, and each of the three counters is the
  number of pages of its type. The pages are those of the document, in page order:
  their numbers are 1, 2, and so on up to the page count.
\<close>

theorem report_totals:
  assumes "process_pdf pl pdf rd = (cs, Some r)"
  shows "total_words r = sum_list (map word_count (pages r))
     \<and> total_chars_with_spaces r = sum_list (map (\<lambda>p. length (text p)) (pages r))
     \<and> total_chars_without_spaces r
         = sum_list (map (\<lambda>p. length (filter (\<lambda>c. c \<noteq> 32 \<and> c \<noteq> 10) (text p))) (pages r))
     \<and> editable_pages r = length (filter (\<lambda>p. type p = py ''Editable'') (pages r))
     \<and> scanned_pages r = length (filter (\<lambda>p. type p = py ''Scanned'') (pages r))
     \<and> hybrid_pages r = length (filter (\<lambda>p. type p = py ''Hybrid'') (pages r))
     \<and> list_all (\<lambda>p. word_count p = length (split (text p))) (pages r)
     \<and> map page_num (pages r) = [1..<Suc (total_pages r)]
     \<and> pdf = Inr (projr pdf) \<and> total_pages r = length (projr pdf)"
  using process_pdf_totals [OF assms] by (simp add: totals_ok_def)

text \<open>
  A scanned page (\<open>"Scan ned"\<close>, 2 words, 8 characters) followed by an editable page
  (12 words, 59 characters).
\<close>

theorem report_totals_witness:
  "\<exists>cs r. process_pdf stub_polylines (Inr [scanned_page, editable_page])
             (stub_reader scan_detections) = (cs, Some r)
     \<and> total_words r = 14 \<and> total_chars_with_spaces r = 67
     \<and> total_chars_without_spaces r = 55
     \<and> editable_pages r = 1 \<and> scanned_pages r = 1 \<and> hybrid_pages r = 0
     \<and> map page_num (pages r) = [1, 2]"
proof -
  have "list_all (page_ok (stub_reader scan_detections)) [scanned_page, editable_page]"
    by (simp add: page_ok_def example_pages2 strip_def isspace_def stub_reader_def)
  from run_ok [OF this] obtain cs r where
    run: "process_pdf stub_polylines (Inr [scanned_page, editable_page])
            (stub_reader scan_detections) = (cs, Some r)"
    by blast
  have p1: "type (page_record stub_polylines (stub_reader scan_detections) (Suc 0) scanned_page)
       = py ''Scanned''"
    "text (page_record stub_polylines (stub_reader scan_detections) (Suc 0) scanned_page)
       = py ''Scan ned''"
    "word_count (page_record stub_polylines (stub_reader scan_detections) (Suc 0) scanned_page) = 2"
    by (simp_all add: page_record_def Let_def example_pages2 strip_def perform_ocr_scan
        length_split isspace_def)
  have p2: "type (page_record stub_polylines (stub_reader scan_detections) 2 editable_page)
       = py ''Editable''"
    "text (page_record stub_polylines (stub_reader scan_detections) 2 editable_page)
       = py ''The quick brown fox jumps over the lazy dog near the river.''"
    "word_count (page_record stub_polylines (stub_reader scan_detections) 2 editable_page) = 12"
    by (simp_all add: page_record_def Let_def example_pages2 strip_def
        length_split isspace_def)
  have pg: "pages r = [page_record stub_polylines (stub_reader scan_detections) (Suc 0) scanned_page,
      page_record stub_polylines (stub_reader scan_detections) 2 editable_page]"
    using process_pdf_pages [OF run] by (simp add: upt_rec numeral_2_eq_2)
  from report_totals [OF run] have "total_words r = 14 \<and> total_chars_with_spaces r = 67
     \<and> total_chars_without_spaces r = 55
     \<and> editable_pages r = 1 \<and> scanned_pages r = 1 \<and> hybrid_pages r = 0
     \<and> map page_num (pages r) = [1, 2]"
    unfolding pg by (simp add: p1 p2 page_num_page_record)
  with run show ?thesis by (intro exI [of _ cs] exI [of _ r]) simp
qed

end
